theory Spec2Isabelle
  imports Main "HOL-Library.Multiset"
begin

section \<open>Subset selection with custom operators (doc/source/customization/subset\_selection.ipynb)\<close>

text \<open>
  The notebook defines a problem class \<^verbatim>\<open>SubsetProblem\<close> and three operators
  (\<^verbatim>\<open>MySampling\<close>, \<^verbatim>\<open>BinaryCrossover\<close>, \<^verbatim>\<open>MyMutation\<close>) over boolean numpy
  arrays. A one-dimensional boolean array is a \<open>bool list\<close>, a matrix is a list of
  rows. The weights \<open>L\<close> are an int64 array, and numpy's arithmetic on them wraps
  around silently: an int64 value is an \<open>int\<close> within \<open>[-2^63, 2^63)\<close>, and every int64
  operation reduces its result to that range. Exceptions are values of \<open>error\<close>; a
  function that can raise returns \<open>error + result\<close>. The counts that the operators
  compute (the number of True entries of a row, and \<open>n_max\<close> minus such a number) are
  exact: for a target count they stay far inside the int64 range.
\<close>

subsection \<open>The numpy operations the notebook uses\<close>

datatype error = ValueError | IndexError

text \<open>The values of an int64, and the value that an int64 operation stores for a result.\<close>

definition in_int64 :: "int \<Rightarrow> bool" where
  "in_int64 v \<longleftrightarrow> - (2 ^ 63) \<le> v \<and> v < 2 ^ 63"

definition wrap_int64 :: "int \<Rightarrow> int" where
  "wrap_int64 v = (v + 2 ^ 63) mod 2 ^ 64 - 2 ^ 63"

definition int64_array :: "int list \<Rightarrow> bool" where
  "int64_array a \<longleftrightarrow> list_all in_int64 a"

text \<open>
  \<^verbatim>\<open>np.sum(a)\<close> and \<^verbatim>\<open>a.sum()\<close> on an int64 array: the accumulator is an int64, so
  every addition wraps.
\<close>

definition sum_int64 :: "int list \<Rightarrow> int" where
  "sum_int64 a = foldl (\<lambda>acc v. wrap_int64 (acc + v)) 0 a"

text \<open>
  \<^verbatim>\<open>np.sum(x)\<close> on a boolean array counts the entries that are True (the count of an
  array is far below \<open>2^63\<close>).
\<close>

definition np_sum :: "bool list \<Rightarrow> int" where
  "np_sum x = sum_list (map (\<lambda>b. if b then 1 else 0) x)"

text \<open>\<^verbatim>\<open>np.where(x)[0]\<close>: the indices of the True entries, ascending.\<close>

definition np_where :: "bool list \<Rightarrow> nat list" where
  "np_where x = filter (\<lambda>i. x ! i) [0..<length x]"

text \<open>
  \<^verbatim>\<open>np.logical_and\<close>, \<^verbatim>\<open>np.logical_xor\<close> and \<^verbatim>\<open>np.logical_not\<close>, elementwise. The
  notebook applies the binary ones to two rows of one array, which have the same length.
\<close>

definition logical_and :: "bool list \<Rightarrow> bool list \<Rightarrow> bool list" where
  "logical_and p1 p2 = map2 (\<lambda>a b. a \<and> b) p1 p2"

definition logical_xor :: "bool list \<Rightarrow> bool list \<Rightarrow> bool list" where
  "logical_xor p1 p2 = map2 (\<lambda>a b. a \<noteq> b) p1 p2"

definition logical_not :: "bool list \<Rightarrow> bool list" where
  "logical_not x = map (\<lambda>a. \<not> a) x"

text \<open>
  \<^verbatim>\<open>a[:n]\<close>: a Python slice never raises. A non-negative bound keeps the first \<open>n\<close>
  entries (all of them when there are fewer); a negative bound drops the last \<open>-n\<close>.
\<close>

definition slice_to :: "int \<Rightarrow> 'a list \<Rightarrow> 'a list" where
  "slice_to n a = (if 0 \<le> n then take (nat n) a else take (length a - nat (- n)) a)"

text \<open>\<^verbatim>\<open>a[idx]\<close> with an integer index array: IndexError when an index is out of bounds.\<close>

definition take_idx :: "'a list \<Rightarrow> nat list \<Rightarrow> error + 'a list" where
  "take_idx a idx = (if \<forall>i \<in> set idx. i < length a then Inr (map (\<lambda>i. a ! i) idx)
                     else Inl IndexError)"

text \<open>\<^verbatim>\<open>a[mask]\<close> with a boolean mask: the mask must be as long as the array.\<close>

definition take_mask :: "'a list \<Rightarrow> bool list \<Rightarrow> error + 'a list" where
  "take_mask a msk = (if length msk = length a then take_idx a (np_where msk)
                       else Inl IndexError)"

text \<open>\<^verbatim>\<open>row[idx] = v\<close> with an integer index array.\<close>

definition assign_idx :: "'a list \<Rightarrow> nat list \<Rightarrow> 'a \<Rightarrow> error + 'a list" where
  "assign_idx row idx v = (if \<forall>i \<in> set idx. i < length row
                           then Inr (fold (\<lambda>i r. r[i := v]) idx row)
                           else Inl IndexError)"

text \<open>\<^verbatim>\<open>row[mask] = v\<close> with a boolean mask.\<close>

definition assign_mask :: "'a list \<Rightarrow> bool list \<Rightarrow> 'a \<Rightarrow> error + 'a list" where
  "assign_mask row msk v = (if length msk = length row
                             then Inr (map2 (\<lambda>m a. if m then v else a) msk row)
                             else Inl IndexError)"

text \<open>\<^verbatim>\<open>row[i] = v\<close> with one integer index.\<close>

definition assign_at :: "'a list \<Rightarrow> nat \<Rightarrow> 'a \<Rightarrow> error + 'a list" where
  "assign_at row i v = (if i < length row then Inr (row[i := v]) else Inl IndexError)"

text \<open>\<^verbatim>\<open>X[i, k]\<close> on a three-dimensional array: the row at those two indices.\<close>

definition row_at :: "'a list list list \<Rightarrow> nat \<Rightarrow> nat \<Rightarrow> error + 'a list" where
  "row_at X i k = (if i < length X \<and> k < length (X ! i) then Inr (X ! i ! k)
                   else Inl IndexError)"

subsection \<open>SubsetProblem\<close>

text \<open>
  \<open>L\<close> is the int64 array of weights (\<open>int64_array L\<close>), \<open>n_max\<close> a Python integer.
\<close>

record problem =
  L :: "int list"
  n_max :: int

text \<open>\<^verbatim>\<open>super().__init__(n_var=len(L), ...)\<close>\<close>

definition n_var :: "problem \<Rightarrow> nat" where
  "n_var p = length (L p)"

record out =
  F :: int
  G :: int

text \<open>
  \<^verbatim>\<open>out["F"] = np.sum(self.L[x])\<close>,
  \<^verbatim>\<open>out["G"] = (self.n_max - np.sum(x)) ** 2\<close>.
  \<^verbatim>\<open>np.sum(x)\<close> is an int64, so the difference and the square are int64 operations
  (\<open>n_max\<close> enters the subtraction as an int64; a Python integer outside the int64
  range is outside this model).
\<close>

definition evaluate :: "problem \<Rightarrow> bool list \<Rightarrow> error + out" where
  "evaluate p x =
     (case take_mask (L p) x of
        Inl e \<Rightarrow> Inl e
      | Inr selected \<Rightarrow>
          (let d = wrap_int64 (n_max p - np_sum x)
           in Inr \<lparr>F = sum_int64 selected, G = wrap_int64 (d ^ 2)\<rparr>))"

subsection \<open>The random source\<close>

text \<open>
  The operators draw from numpy's global generator through
  \<^verbatim>\<open>np.random.permutation(n)\<close> and \<^verbatim>\<open>np.random.choice(a)\<close>. The generator is
  not part of the notebook: its state is a value of an arbitrary type \<open>'r\<close> that every
  draw takes and returns, and the two functions are parameters.
\<close>

record 'r np_random =
  random_permutation :: "nat \<Rightarrow> 'r \<Rightarrow> nat list \<times> 'r"
  random_choice :: "nat list \<Rightarrow> 'r \<Rightarrow> error + nat \<times> 'r"

text \<open>
  What numpy documents of them: \<^verbatim>\<open>permutation(n)\<close> returns a permutation of
  \<^verbatim>\<open>range(n)\<close>; \<^verbatim>\<open>choice(a)\<close> returns an entry of \<open>a\<close>, and raises ValueError
  when \<open>a\<close> is empty.
\<close>

definition np_random_ok :: "'r np_random \<Rightarrow> bool" where
  "np_random_ok R \<longleftrightarrow>
     (\<forall>n r. mset (fst (random_permutation R n r)) = mset [0..<n]) \<and>
     (\<forall>r. random_choice R [] r = Inl ValueError) \<and>
     (\<forall>a r. a \<noteq> [] \<longrightarrow> (\<exists>v r'. random_choice R a r = Inr (v, r') \<and> v \<in> set a))"

text \<open>
  A small deterministic generator that meets this contract (its state is a counter),
  to run the operators on concrete inputs.
\<close>

definition example_random :: "nat np_random" where
  "example_random =
     \<lparr>random_permutation = (\<lambda>n r. (rotate r [0..<n], Suc r)),
      random_choice = (\<lambda>a r. if a = [] then Inl ValueError
                                else Inr (a ! (r mod length a), Suc r))\<rparr>"

text \<open>
  \<^verbatim>\<open>for k in range(...)\<close> over the rows of an array: the body runs on each row in
  turn, the generator's state goes from one iteration to the next, and an exception
  in the body ends the loop.
\<close>

fun for_each :: "('a \<Rightarrow> 'r \<Rightarrow> error + 'b \<times> 'r) \<Rightarrow> 'a list \<Rightarrow> 'r \<Rightarrow> error + 'b list \<times> 'r" where
  "for_each f [] r = Inr ([], r)"
| "for_each f (a # as) r =
     (case f a r of
        Inl e \<Rightarrow> Inl e
      | Inr (b, r') \<Rightarrow>
          (case for_each f as r' of
             Inl e \<Rightarrow> Inl e
           | Inr (bs, r'') \<Rightarrow> Inr (b # bs, r'')))"

subsection \<open>MySampling\<close>

text \<open>
  The body of the loop, on row \<open>k\<close> of \<open>X\<close>:
  \<^verbatim>\<open>I = np.random.permutation(problem.n_var)[:problem.n_max]; X[k, I] = True\<close>.
\<close>

definition sample_row :: "'r np_random \<Rightarrow> problem \<Rightarrow> bool list \<Rightarrow> 'r \<Rightarrow> error + bool list \<times> 'r" where
  "sample_row R p row r =
     (let (perm, r') = random_permutation R (n_var p) r;
          I = slice_to (n_max p) perm
      in case assign_idx row I True of
           Inl e \<Rightarrow> Inl e
         | Inr row' \<Rightarrow> Inr (row', r'))"

text \<open>
  \<^verbatim>\<open>X = np.full((n_samples, problem.n_var), False, dtype=np.bool)\<close>, then the loop
  over \<^verbatim>\<open>range(n_samples)\<close>.
\<close>

definition MySampling_do :: "'r np_random \<Rightarrow> problem \<Rightarrow> nat \<Rightarrow> 'r \<Rightarrow> error + bool list list \<times> 'r" where
  "MySampling_do R p n_samples r =
     for_each (sample_row R p) (replicate n_samples (replicate (n_var p) False)) r"

subsection \<open>BinaryCrossover\<close>

text \<open>The body of the loop once \<^verbatim>\<open>p1, p2 = X[0, k], X[1, k]\<close> are read.\<close>

definition cross :: "'r np_random \<Rightarrow> problem \<Rightarrow> bool list \<Rightarrow> bool list \<Rightarrow> 'r \<Rightarrow> error + bool list \<times> 'r" where
  "cross R p p1 p2 r =
     (let both_are_true = logical_and p1 p2 in
      case assign_mask (replicate (n_var p) False) both_are_true True of
        Inl e \<Rightarrow> Inl e
      | Inr row \<Rightarrow>
          (let n_remaining = n_max p - np_sum both_are_true;
               I = np_where (logical_xor p1 p2);
               (perm, r') = random_permutation R (length I) r
           in case take_idx I perm of
                Inl e \<Rightarrow> Inl e
              | Inr Ip \<Rightarrow>
                  (let S = slice_to n_remaining Ip
                   in case assign_idx row S True of
                        Inl e \<Rightarrow> Inl e
                      | Inr row' \<Rightarrow> Inr (row', r'))))"

definition mating :: "'r np_random \<Rightarrow> problem \<Rightarrow> bool list list list \<Rightarrow> nat \<Rightarrow> 'r \<Rightarrow> error + bool list \<times> 'r" where
  "mating R p X k r =
     (case row_at X 0 k of
        Inl e \<Rightarrow> Inl e
      | Inr p1 \<Rightarrow>
          (case row_at X 1 k of
             Inl e \<Rightarrow> Inl e
           | Inr p2 \<Rightarrow> cross R p p1 p2 r))"

text \<open>
  \<open>X\<close> has shape \<open>(n_parents, n_matings, n_var)\<close>; the result has shape
  \<open>(n_offsprings, n_matings, problem.n_var)\<close> with \<open>n_offsprings = 1\<close>
  (\<^verbatim>\<open>super().__init__(2, 1)\<close>). A nested list cannot hold the shape of an array with
  no parent: \<open>n_matings\<close> is read as 0 there.
\<close>

definition BinaryCrossover_do :: "'r np_random \<Rightarrow> problem \<Rightarrow> bool list list list \<Rightarrow> 'r \<Rightarrow> error + bool list list list \<times> 'r" where
  "BinaryCrossover_do R p X r =
     (let n_matings = (case X of [] \<Rightarrow> 0 | P # _ \<Rightarrow> length P) in
      case for_each (mating R p X) [0..<n_matings] r of
        Inl e \<Rightarrow> Inl e
      | Inr (offsprings, r') \<Rightarrow> Inr ([offsprings], r'))"

text \<open>The shape of a three-dimensional array held as a nested list.\<close>

definition has_shape :: "'a list list list \<Rightarrow> nat \<Rightarrow> nat \<Rightarrow> nat \<Rightarrow> bool" where
  "has_shape X a b c \<longleftrightarrow>
     length X = a \<and> (\<forall>P \<in> set X. length P = b \<and> (\<forall>row \<in> set P. length row = c))"

subsection \<open>MyMutation\<close>

text \<open>
  The body of the loop on row \<open>i\<close> (the assignment \<^verbatim>\<open>X[i, :] = X[i, :]\<close> changes
  nothing). Both index arrays are computed before the first assignment;
  \<^verbatim>\<open>np.random.choice(is_false)\<close> is drawn and assigned first, then
  \<^verbatim>\<open>np.random.choice(is_true)\<close>.
\<close>

definition mutate_row :: "'r np_random \<Rightarrow> bool list \<Rightarrow> 'r \<Rightarrow> error + bool list \<times> 'r" where
  "mutate_row R row r =
     (let is_false = np_where (logical_not row);
          is_true = np_where row
      in case random_choice R is_false r of
           Inl e \<Rightarrow> Inl e
         | Inr (j, r1) \<Rightarrow>
             (case assign_at row j True of
                Inl e \<Rightarrow> Inl e
              | Inr row1 \<Rightarrow>
                  (case random_choice R is_true r1 of
                     Inl e \<Rightarrow> Inl e
                   | Inr (t, r2) \<Rightarrow>
                       (case assign_at row1 t False of
                          Inl e \<Rightarrow> Inl e
                        | Inr row2 \<Rightarrow> Inr (row2, r2)))))"

definition MyMutation_do :: "'r np_random \<Rightarrow> problem \<Rightarrow> bool list list \<Rightarrow> 'r \<Rightarrow> error + bool list list \<times> 'r" where
  "MyMutation_do R p X r = for_each (mutate_row R) X r"

subsection \<open>The optimum by sorting\<close>




section \<open>Facts about the array operations\<close>

lemma np_where_set: "set (np_where x) = {i. i < length x \<and> x ! i}"
  by (auto simp: np_where_def)

lemma np_where_distinct: "distinct (np_where x)"
  by (simp add: np_where_def)

lemma np_sum_Cons: "np_sum (b # x) = (if b then 1 else 0) + np_sum x"
  by (simp add: np_sum_def)

lemma np_sum_filter: "np_sum x = int (length (filter (\<lambda>b. b) x))"
  by (induction x) (auto simp: np_sum_def)

lemma np_sum_where: "np_sum x = int (length (np_where x))"
proof -
  have "filter (\<lambda>b. b) x = map (\<lambda>i. x ! i) (np_where x)"
  proof -
    have "filter (\<lambda>b. b) (map (\<lambda>i. x ! i) [0..<length x])
            = map (\<lambda>i. x ! i) (filter ((\<lambda>b. b) \<circ> (\<lambda>i. x ! i)) [0..<length x])"
      by (rule filter_map)
    then show ?thesis
      by (simp add: map_nth np_where_def comp_def)
  qed
  then show ?thesis
    by (simp add: np_sum_filter)
qed

lemma np_sum_card: "np_sum x = int (card {i. i < length x \<and> x ! i})"
proof -
  have "card (set (np_where x)) = length (np_where x)"
    by (rule distinct_card) (rule np_where_distinct)
  then show ?thesis
    by (simp add: np_sum_where np_where_set)
qed

lemma take_mask_ok:
  "length x = length a \<Longrightarrow> take_mask a x = Inr (map (\<lambda>i. a ! i) (np_where x))"
  by (auto simp: take_mask_def take_idx_def np_where_set)

subsection \<open>Arithmetic in int64\<close>

lemma wrap_int64_id: "in_int64 v \<Longrightarrow> wrap_int64 v = v"
  by (simp add: in_int64_def wrap_int64_def)

lemma wrap_int64_zero: "wrap_int64 0 = 0"
  by (simp add: wrap_int64_def)

lemma wrap_int64_range: "in_int64 (wrap_int64 v)"
  by (simp add: in_int64_def wrap_int64_def)

lemma wrap_int64_add: "wrap_int64 (wrap_int64 a + b) = wrap_int64 (a + b)"
proof -
  have "(a + 2 ^ 63) mod 2 ^ 64 - 2 ^ 63 + b + 2 ^ 63 = (a + 2 ^ 63) mod 2 ^ 64 + b"
    by linarith
  moreover have "((a + 2 ^ 63) mod 2 ^ 64 + b) mod 2 ^ 64 = (a + 2 ^ 63 + b) mod 2 ^ 64"
    by (rule mod_add_left_eq)
  moreover have "a + 2 ^ 63 + b = a + b + 2 ^ 63"
    by linarith
  ultimately show ?thesis
    by (simp only: wrap_int64_def)
qed

lemma wrap_int64_mod: "wrap_int64 a mod 2 ^ 64 = a mod 2 ^ 64"
proof -
  have "wrap_int64 a mod 2 ^ 64 = ((a + 2 ^ 63) mod 2 ^ 64 - 2 ^ 63) mod 2 ^ 64"
    by (simp add: wrap_int64_def)
  also have "\<dots> = (a + 2 ^ 63 - 2 ^ 63) mod 2 ^ 64"
    by (rule mod_diff_left_eq)
  finally show ?thesis
    by simp
qed

lemma wrap_int64_square: "wrap_int64 ((wrap_int64 a) ^ 2) = wrap_int64 (a ^ 2)"
proof -
  have "(wrap_int64 a) ^ 2 mod 2 ^ 64 = a ^ 2 mod 2 ^ 64"
    using wrap_int64_mod [of a] by (metis power_mod)
  then have "((wrap_int64 a) ^ 2 + 2 ^ 63) mod 2 ^ 64 = (a ^ 2 + 2 ^ 63) mod 2 ^ 64"
    by (metis mod_add_left_eq)
  then show ?thesis
    by (simp only: wrap_int64_def)
qed

lemma sum_int64_foldl:
  "foldl (\<lambda>acc v. wrap_int64 (acc + v)) (wrap_int64 s) a = wrap_int64 (s + sum_list a)"
proof (induction a arbitrary: s)
  case Nil
  then show ?case by simp
next
  case (Cons v a)
  have "foldl (\<lambda>acc v. wrap_int64 (acc + v)) (wrap_int64 (s + v)) a
        = wrap_int64 (s + v + sum_list a)"
    by (rule Cons.IH)
  then show ?case
    by (simp add: wrap_int64_add add.assoc)
qed

lemma sum_int64_wrap: "sum_int64 a = wrap_int64 (sum_list a)"
  using sum_int64_foldl [of 0 a] by (simp add: sum_int64_def wrap_int64_zero)

lemma sum_int64_exact: "in_int64 (sum_list a) \<Longrightarrow> sum_int64 a = sum_list a"
  by (simp add: sum_int64_wrap wrap_int64_id)

lemma evaluate_ok:
  "length x = n_var p \<Longrightarrow>
   evaluate p x = Inr \<lparr>F = wrap_int64 (sum_list (map (\<lambda>i. L p ! i) (np_where x))),
                       G = wrap_int64 ((n_max p - np_sum x) ^ 2)\<rparr>"
  by (simp add: evaluate_def n_var_def take_mask_ok sum_int64_wrap wrap_int64_square)

subsection \<open>Assignments and counts\<close>

lemma assign_fold_length: "length (fold (\<lambda>i r. r[i := v]) idx row) = length row"
  by (induction idx arbitrary: row) auto

lemma assign_fold_nth:
  "j < length row \<Longrightarrow> fold (\<lambda>i r. r[i := v]) idx row ! j = (if j \<in> set idx then v else row ! j)"
  by (induction idx arbitrary: row) (auto simp: nth_list_update)

lemma np_sum_nonneg: "0 \<le> np_sum x"
  by (simp add: np_sum_filter)

lemma np_sum_le_length: "np_sum x \<le> int (length x)"
  by (simp add: np_sum_filter)

lemma np_sum_update:
  "i < length x \<Longrightarrow>
   np_sum (x[i := v]) = np_sum x - (if x ! i then 1 else 0) + (if v then 1 else 0)"
proof (induction x arbitrary: i)
  case Nil
  then show ?case by simp
next
  case (Cons b x)
  then show ?case
    by (cases i) (auto simp: np_sum_Cons)
qed

lemma np_sum_assign_fold:
  "distinct idx \<Longrightarrow> \<forall>i \<in> set idx. i < length row \<and> \<not> row ! i \<Longrightarrow>
   np_sum (fold (\<lambda>i r. r[i := True]) idx row) = np_sum row + int (length idx)"
proof (induction idx arbitrary: row)
  case Nil
  then show ?case by simp
next
  case (Cons a idx)
  have "\<forall>i \<in> set idx. i < length (row[a := True]) \<and> \<not> row[a := True] ! i"
    using Cons.prems by (auto simp: nth_list_update)
  with Cons have "np_sum (fold (\<lambda>i r. r[i := True]) idx (row[a := True]))
                  = np_sum (row[a := True]) + int (length idx)"
    by simp
  with Cons.prems show ?case
    by (simp add: np_sum_update)
qed

lemma np_sum_replicate_False: "np_sum (replicate n False) = 0"
  by (induction n) (auto simp: np_sum_Cons np_sum_def)

lemma np_sum_logical_not: "np_sum (logical_not x) = int (length x) - np_sum x"
  by (induction x) (auto simp: np_sum_Cons logical_not_def np_sum_def)

lemma np_sum_and_xor:
  "length p1 = length p2 \<Longrightarrow>
   np_sum p1 + np_sum p2 = 2 * np_sum (logical_and p1 p2) + np_sum (logical_xor p1 p2)"
  by (induction p1 p2 rule: list_induct2) (auto simp: np_sum_Cons logical_and_def logical_xor_def np_sum_def)

subsection \<open>Slices and permutations\<close>

lemma slice_to_set: "set (slice_to n a) \<subseteq> set a"
  by (auto simp: slice_to_def dest: in_set_takeD)

lemma slice_to_distinct: "distinct a \<Longrightarrow> distinct (slice_to n a)"
  by (simp add: slice_to_def)

lemma slice_to_length:
  "0 \<le> n \<Longrightarrow> n \<le> int (length a) \<Longrightarrow> length (slice_to n a) = nat n"
  by (simp add: slice_to_def)

lemma slice_to_all: "int (length a) \<le> n \<Longrightarrow> slice_to n a = a"
  by (simp add: slice_to_def)

lemma permutation_distinct:
  "np_random_ok R \<Longrightarrow> distinct (fst (random_permutation R n r))"
proof -
  assume "np_random_ok R"
  then have "mset (fst (random_permutation R n r)) = mset [0..<n]"
    by (simp add: np_random_ok_def)
  then show ?thesis
    by (metis distinct_upt mset_eq_imp_distinct_iff)
qed

lemma permutation_set:
  "np_random_ok R \<Longrightarrow> set (fst (random_permutation R n r)) = {0..<n}"
proof -
  assume "np_random_ok R"
  then have "mset (fst (random_permutation R n r)) = mset [0..<n]"
    by (simp add: np_random_ok_def)
  then have "set (fst (random_permutation R n r)) = set [0..<n]"
    by (rule mset_eq_setD)
  then show ?thesis by simp
qed

lemma permutation_length:
  "np_random_ok R \<Longrightarrow> length (fst (random_permutation R n r)) = n"
proof -
  assume "np_random_ok R"
  then have "mset (fst (random_permutation R n r)) = mset [0..<n]"
    by (simp add: np_random_ok_def)
  then have "length (fst (random_permutation R n r)) = length [0..<n]"
    by (rule mset_eq_length)
  then show ?thesis by simp
qed

subsection \<open>The loop over rows\<close>

lemma for_each_ok:
  assumes "\<forall>a \<in> set xs. \<forall>r. \<exists>b r'. f a r = Inr (b, r') \<and> Q a b"
  shows "\<exists>ys r'. for_each f xs r = Inr (ys, r') \<and> list_all2 Q xs ys"
  using assms
proof (induction xs arbitrary: r)
  case Nil
  then show ?case by simp
next
  case (Cons a xs)
  from Cons.prems obtain b r1 where b: "f a r = Inr (b, r1)" "Q a b"
    by (meson list.set_intros(1))
  from Cons obtain ys r2 where ys: "for_each f xs r1 = Inr (ys, r2)" "list_all2 Q xs ys"
    by (meson list.set_intros(2))
  from b ys show ?case by simp
qed

lemma for_each_fails:
  assumes "\<forall>a \<in> set xs. \<forall>r. (\<exists>b r'. f a r = Inr (b, r')) \<or> f a r = Inl e"
    and "\<exists>a \<in> set xs. \<forall>r. f a r = Inl e"
  shows "for_each f xs r = Inl e"
  using assms
proof (induction xs arbitrary: r)
  case Nil
  then show ?case by simp
next
  case (Cons a xs)
  show ?case
  proof (cases "f a r")
    case (Inl e')
    with Cons.prems(1) have "e' = e" by (metis Inl_Inr_False list.set_intros(1) sum.inject(1))
    with Inl show ?thesis by simp
  next
    case (Inr br)
    obtain b r1 where br: "br = (b, r1)" by (cases br)
    from Inr Cons.prems(2) have "\<exists>a \<in> set xs. \<forall>r. f a r = Inl e"
      by (metis Inl_Inr_False set_ConsD)
    with Cons have "for_each f xs r1 = Inl e"
      by (meson list.set_intros(2))
    with Inr br show ?thesis by simp
  qed
qed


subsection \<open>Sampling one row\<close>

lemma assign_idx_ok:
  "\<forall>i \<in> set idx. i < length row \<Longrightarrow>
   assign_idx row idx v = Inr (fold (\<lambda>i r. r[i := v]) idx row)"
  by (simp add: assign_idx_def)

lemma sample_row_ok:
  assumes R: "np_random_ok R"
  shows "\<exists>I r'. sample_row R p (replicate (n_var p) False) r
                  = Inr (fold (\<lambda>i x. x[i := True]) I (replicate (n_var p) False), r')
               \<and> distinct I \<and> set I \<subseteq> {0..<n_var p}
               \<and> (\<exists>perm. length perm = n_var p \<and> I = slice_to (n_max p) perm)"
proof -
  obtain perm r' where draw: "random_permutation R (n_var p) r = (perm, r')"
    by (cases "random_permutation R (n_var p) r")
  let ?I = "slice_to (n_max p) perm"
  from R draw have perm: "distinct perm" "set perm = {0..<n_var p}" "length perm = n_var p"
    using permutation_distinct [OF R, of "n_var p" r] permutation_set [OF R, of "n_var p" r]
      permutation_length [OF R, of "n_var p" r]
    by simp_all
  have I: "distinct ?I" "set ?I \<subseteq> {0..<n_var p}"
    using perm slice_to_set [of "n_max p" perm] by (simp_all add: slice_to_distinct)
  then have "\<forall>i \<in> set ?I. i < length (replicate (n_var p) False)"
    by auto
  then have "sample_row R p (replicate (n_var p) False) r
             = Inr (fold (\<lambda>i x. x[i := True]) ?I (replicate (n_var p) False), r')"
    by (simp add: sample_row_def draw assign_idx_ok)
  with I perm(3) show ?thesis by blast
qed

lemma sample_row_count:
  assumes R: "np_random_ok R" and lo: "0 \<le> n_max p" and hi: "n_max p \<le> int (n_var p)"
  shows "\<exists>x r'. sample_row R p (replicate (n_var p) False) r = Inr (x, r')
               \<and> length x = n_var p \<and> np_sum x = n_max p"
proof -
  from sample_row_ok [OF R, of p r] obtain I r' perm where
    run: "sample_row R p (replicate (n_var p) False) r
            = Inr (fold (\<lambda>i x. x[i := True]) I (replicate (n_var p) False), r')"
    and I: "distinct I" "set I \<subseteq> {0..<n_var p}"
    and perm: "length perm = n_var p" "I = slice_to (n_max p) perm"
    by blast
  have len: "length I = nat (n_max p)"
    using perm lo hi by (simp add: slice_to_length)
  have "\<forall>i \<in> set I. i < length (replicate (n_var p) False) \<and> \<not> replicate (n_var p) False ! i"
    using I(2) by auto
  with I(1) have "np_sum (fold (\<lambda>i x. x[i := True]) I (replicate (n_var p) False))
                  = np_sum (replicate (n_var p) False) + int (length I)"
    by (rule np_sum_assign_fold)
  with len lo have "np_sum (fold (\<lambda>i x. x[i := True]) I (replicate (n_var p) False)) = n_max p"
    by (simp add: np_sum_replicate_False)
  with run show ?thesis
    by (simp add: assign_fold_length)
qed

lemma MySampling_count:
  assumes R: "np_random_ok R" and lo: "0 \<le> n_max p" and hi: "n_max p \<le> int (n_var p)"
  shows "\<exists>X r'. MySampling_do R p n r = Inr (X, r') \<and> length X = n
               \<and> (\<forall>x \<in> set X. length x = n_var p \<and> np_sum x = n_max p)"
proof -
  let ?Q = "\<lambda>(row::bool list) x. length x = n_var p \<and> np_sum x = n_max p"
  have "\<forall>row \<in> set (replicate n (replicate (n_var p) False)).
          \<forall>r. \<exists>x r'. sample_row R p row r = Inr (x, r') \<and> ?Q row x"
    using sample_row_count [OF R lo hi] by simp
  then obtain X r' where run: "for_each (sample_row R p) (replicate n (replicate (n_var p) False)) r
                                 = Inr (X, r')"
    and all: "list_all2 ?Q (replicate n (replicate (n_var p) False)) X"
    using for_each_ok [of "replicate n (replicate (n_var p) False)" "sample_row R p" ?Q r]
    by blast
  from all have "length X = n"
    by (auto dest: list_all2_lengthD)
  moreover from all have "\<forall>x \<in> set X. length x = n_var p \<and> np_sum x = n_max p"
    by (auto simp: list_all2_conv_all_nth in_set_conv_nth)
  ultimately show ?thesis
    using run by (simp add: MySampling_do_def)
qed


subsection \<open>One crossover\<close>

lemma assign_mask_fresh:
  "assign_mask (replicate (length msk) False) msk True = Inr msk"
proof -
  have "map2 (\<lambda>m a. if m then True else a) msk (replicate (length msk) False) = msk"
    by (induction msk) auto
  then show ?thesis
    by (simp add: assign_mask_def)
qed

lemma logical_and_length: "length p1 = length p2 \<Longrightarrow> length (logical_and p1 p2) = length p1"
  by (simp add: logical_and_def)

lemma logical_xor_length: "length p1 = length p2 \<Longrightarrow> length (logical_xor p1 p2) = length p1"
  by (simp add: logical_xor_def)

lemma logical_and_nth:
  "length p1 = length p2 \<Longrightarrow> i < length p1 \<Longrightarrow> logical_and p1 p2 ! i = (p1 ! i \<and> p2 ! i)"
  by (simp add: logical_and_def)

lemma logical_xor_nth:
  "length p1 = length p2 \<Longrightarrow> i < length p1 \<Longrightarrow> logical_xor p1 p2 ! i = (p1 ! i \<noteq> p2 ! i)"
  by (simp add: logical_xor_def)

lemma np_where_xor:
  "length p1 = n \<Longrightarrow> length p2 = n \<Longrightarrow>
   set (np_where (logical_xor p1 p2)) = {i. i < n \<and> p1 ! i \<noteq> p2 ! i}"
  by (auto simp: np_where_set logical_xor_length logical_xor_nth)

lemma take_idx_permutation:
  assumes "mset perm = mset [0..<length a]"
  shows "\<exists>ap. take_idx a perm = Inr ap \<and> mset ap = mset a"
proof -
  from assms have "set perm = set [0..<length a]"
    by (rule mset_eq_setD)
  then have "\<forall>i \<in> set perm. i < length a"
    by simp
  then have run: "take_idx a perm = Inr (map (\<lambda>i. a ! i) perm)"
    by (simp add: take_idx_def)
  have "mset (map (\<lambda>i. a ! i) perm) = image_mset (\<lambda>i. a ! i) (mset [0..<length a])"
    using assms by (metis mset_map)
  also have "\<dots> = mset (map (\<lambda>i. a ! i) [0..<length a])"
    by simp
  also have "\<dots> = mset a"
    by (simp add: map_nth)
  finally show ?thesis
    using run by simp
qed

lemma cross_ok:
  assumes R: "np_random_ok R" and l1: "length p1 = n_var p" and l2: "length p2 = n_var p"
  shows "\<exists>S r'. cross R p p1 p2 r
                  = Inr (fold (\<lambda>i x. x[i := True]) S (logical_and p1 p2), r')
               \<and> distinct S
               \<and> set S \<subseteq> {i. i < n_var p \<and> p1 ! i \<noteq> p2 ! i}
               \<and> (\<exists>Ip. mset Ip = mset (np_where (logical_xor p1 p2))
                       \<and> S = slice_to (n_max p - np_sum (logical_and p1 p2)) Ip)"
proof -
  let ?I = "np_where (logical_xor p1 p2)"
  let ?k = "n_max p - np_sum (logical_and p1 p2)"
  obtain perm r' where draw: "random_permutation R (length ?I) r = (perm, r')"
    by (cases "random_permutation R (length ?I) r")
  from R have "mset (fst (random_permutation R (length ?I) r)) = mset [0..<length ?I]"
    by (simp add: np_random_ok_def)
  with draw have "mset perm = mset [0..<length ?I]"
    by simp
  then obtain Ip where Ip: "take_idx ?I perm = Inr Ip" "mset Ip = mset ?I"
    using take_idx_permutation by blast
  let ?S = "slice_to ?k Ip"
  have setI: "set ?I = {i. i < n_var p \<and> p1 ! i \<noteq> p2 ! i}"
    using l1 l2 by (rule np_where_xor)
  from Ip(2) have "set Ip = set ?I"
    by (rule mset_eq_setD)
  moreover from Ip(2) have "distinct Ip"
    using np_where_distinct [of "logical_xor p1 p2"] mset_eq_imp_distinct_iff by blast
  ultimately have "set Ip = set ?I" "distinct Ip" by simp_all
  then have S: "distinct ?S" "set ?S \<subseteq> {i. i < n_var p \<and> p1 ! i \<noteq> p2 ! i}"
    using slice_to_set [of ?k Ip] setI by (simp_all add: slice_to_distinct)
  have len: "length (logical_and p1 p2) = n_var p"
    using l1 l2 by (simp add: logical_and_length)
  then have mask: "assign_mask (replicate (n_var p) False) (logical_and p1 p2) True
                   = Inr (logical_and p1 p2)"
    using assign_mask_fresh [of "logical_and p1 p2"] by simp
  have "\<forall>i \<in> set ?S. i < length (logical_and p1 p2)"
    using S(2) len by auto
  then have "assign_idx (logical_and p1 p2) ?S True
             = Inr (fold (\<lambda>i x. x[i := True]) ?S (logical_and p1 p2))"
    by (rule assign_idx_ok)
  then have "cross R p p1 p2 r = Inr (fold (\<lambda>i x. x[i := True]) ?S (logical_and p1 p2), r')"
    unfolding cross_def Let_def by (simp only: mask draw Ip(1) sum.case prod.case)
  with S Ip(2) show ?thesis
    by blast
qed


lemma cross_count:
  assumes R: "np_random_ok R" and l1: "length p1 = n_var p" and l2: "length p2 = n_var p"
    and f1: "np_sum p1 = n_max p" and f2: "np_sum p2 = n_max p"
  shows "\<exists>S r'. cross R p p1 p2 r
                  = Inr (fold (\<lambda>i x. x[i := True]) S (logical_and p1 p2), r')
               \<and> distinct S
               \<and> set S \<subseteq> {i. i < n_var p \<and> p1 ! i \<noteq> p2 ! i}
               \<and> int (length S) = n_max p - np_sum (logical_and p1 p2)"
proof -
  let ?k = "n_max p - np_sum (logical_and p1 p2)"
  from cross_ok [OF R l1 l2, of r] obtain S r' Ip where
    run: "cross R p p1 p2 r = Inr (fold (\<lambda>i x. x[i := True]) S (logical_and p1 p2), r')"
    and S: "distinct S" "set S \<subseteq> {i. i < n_var p \<and> p1 ! i \<noteq> p2 ! i}"
    and Ip: "mset Ip = mset (np_where (logical_xor p1 p2))" "S = slice_to ?k Ip"
    by blast
  from Ip(1) have "length Ip = length (np_where (logical_xor p1 p2))"
    by (rule mset_eq_length)
  then have lenIp: "int (length Ip) = np_sum (logical_xor p1 p2)"
    by (simp add: np_sum_where)
  have "np_sum p1 + np_sum p2 = 2 * np_sum (logical_and p1 p2) + np_sum (logical_xor p1 p2)"
    using l1 l2 by (simp add: np_sum_and_xor)
  with f1 f2 lenIp have twice: "int (length Ip) = 2 * ?k"
    by simp
  have nonneg: "0 \<le> int (length Ip)"
    by simp
  from twice nonneg have lo: "0 \<le> ?k"
    by presburger
  from twice nonneg have "?k \<le> int (length Ip)"
    by presburger
  with lo have "length (slice_to ?k Ip) = nat ?k"
    by (rule slice_to_length)
  with Ip(2) lo have "int (length S) = ?k"
    by simp
  with run S show ?thesis
    by blast
qed

lemma cross_self:
  assumes R: "np_random_ok R" and l: "length x = n_var p"
  shows "\<exists>r'. cross R p x x r = Inr (x, r')"
proof -
  from cross_ok [OF R l l, of r] obtain S r' where
    run: "cross R p x x r = Inr (fold (\<lambda>i y. y[i := True]) S (logical_and x x), r')"
    and S: "set S \<subseteq> {i. i < n_var p \<and> x ! i \<noteq> x ! i}"
    by blast
  from S have "S = []" by simp
  moreover have "logical_and x x = x"
    by (induction x) (auto simp: logical_and_def)
  ultimately show ?thesis
    using run by simp
qed

lemma cross_truncated:
  assumes R: "np_random_ok R" and l1: "length p1 = n_var p" and l2: "length p2 = n_var p"
    and few: "np_sum (logical_xor p1 p2) < n_max p - np_sum (logical_and p1 p2)"
  shows "\<exists>S r'. cross R p p1 p2 r
                  = Inr (fold (\<lambda>i x. x[i := True]) S (logical_and p1 p2), r')
               \<and> distinct S
               \<and> set S = {i. i < n_var p \<and> p1 ! i \<noteq> p2 ! i}"
proof -
  let ?k = "n_max p - np_sum (logical_and p1 p2)"
  from cross_ok [OF R l1 l2, of r] obtain S r' Ip where
    run: "cross R p p1 p2 r = Inr (fold (\<lambda>i x. x[i := True]) S (logical_and p1 p2), r')"
    and S: "distinct S"
    and Ip: "mset Ip = mset (np_where (logical_xor p1 p2))" "S = slice_to ?k Ip"
    by blast
  from Ip(1) have "length Ip = length (np_where (logical_xor p1 p2))"
    by (rule mset_eq_length)
  with few have "int (length Ip) \<le> ?k"
    by (simp add: np_sum_where)
  with Ip(2) have "S = Ip"
    by (simp add: slice_to_all)
  moreover from Ip(1) have "set Ip = set (np_where (logical_xor p1 p2))"
    by (rule mset_eq_setD)
  ultimately have "set S = {i. i < n_var p \<and> p1 ! i \<noteq> p2 ! i}"
    by (simp only: np_where_xor [OF l1 l2])
  with run S show ?thesis
    by blast
qed

lemma mating_cross:
  assumes "has_shape X 2 m c" and "k < m"
  shows "mating R p X k r = cross R p (X ! 0 ! k) (X ! 1 ! k) r"
    and "length (X ! 0 ! k) = c" and "length (X ! 1 ! k) = c"
proof -
  from assms have X: "length X = 2" "length (X ! 0) = m" "length (X ! 1) = m"
    by (auto simp: has_shape_def)
  with assms(2) show "mating R p X k r = cross R p (X ! 0 ! k) (X ! 1 ! k) r"
    by (simp add: mating_def row_at_def)
  from X assms have "X ! 0 ! k \<in> set (X ! 0)" "X ! 1 ! k \<in> set (X ! 1)" "X ! 0 \<in> set X" "X ! 1 \<in> set X"
    by simp_all
  with assms(1) show "length (X ! 0 ! k) = c" "length (X ! 1 ! k) = c"
    by (auto simp: has_shape_def)
qed

lemma BinaryCrossover_n_matings:
  "has_shape X 2 m c \<Longrightarrow>
   BinaryCrossover_do R p X r =
     (case for_each (mating R p X) [0..<m] r of
        Inl e \<Rightarrow> Inl e
      | Inr (offsprings, r') \<Rightarrow> Inr ([offsprings], r'))"
  by (cases X) (auto simp: BinaryCrossover_do_def has_shape_def)


lemma offspring_length:
  "length p1 = n \<Longrightarrow> length p2 = n \<Longrightarrow>
   length (fold (\<lambda>i x. x[i := True]) S (logical_and p1 p2)) = n"
  by (simp add: assign_fold_length logical_and_length)

lemma offspring_nth:
  "length p1 = n \<Longrightarrow> length p2 = n \<Longrightarrow> i < n \<Longrightarrow>
   fold (\<lambda>i x. x[i := True]) S (logical_and p1 p2) ! i = ((p1 ! i \<and> p2 ! i) \<or> i \<in> set S)"
  by (simp add: assign_fold_nth logical_and_length logical_and_nth)

lemma offspring_sum:
  assumes l1: "length p1 = n" and l2: "length p2 = n" and d: "distinct S"
    and sub: "set S \<subseteq> {i. i < n \<and> p1 ! i \<noteq> p2 ! i}"
  shows "np_sum (fold (\<lambda>i x. x[i := True]) S (logical_and p1 p2))
         = np_sum (logical_and p1 p2) + int (length S)"
proof -
  have "\<forall>i \<in> set S. i < length (logical_and p1 p2) \<and> \<not> logical_and p1 p2 ! i"
    using l1 l2 sub by (auto simp: logical_and_length logical_and_nth)
  with d show ?thesis
    by (rule np_sum_assign_fold)
qed

lemma BinaryCrossover_each:
  assumes shape: "has_shape X 2 m c"
    and body: "\<forall>k<m. \<forall>r. \<exists>x r'. cross R p (X ! 0 ! k) (X ! 1 ! k) r = Inr (x, r') \<and> Q k x"
  shows "\<exists>offsprings r'. BinaryCrossover_do R p X r = Inr ([offsprings], r')
           \<and> length offsprings = m \<and> (\<forall>k<m. Q k (offsprings ! k))"
proof -
  have "\<forall>k \<in> set [0..<m]. \<forall>r. \<exists>x r'. mating R p X k r = Inr (x, r') \<and> Q k x"
  proof (intro ballI allI)
    fix k r
    assume "k \<in> set [0..<m]"
    then have k: "k < m" by simp
    with body obtain x r' where "cross R p (X ! 0 ! k) (X ! 1 ! k) r = Inr (x, r')" "Q k x"
      by blast
    then show "\<exists>x r'. mating R p X k r = Inr (x, r') \<and> Q k x"
      using mating_cross(1) [OF shape k, of R p r] by simp
  qed
  then obtain ys r' where run: "for_each (mating R p X) [0..<m] r = Inr (ys, r')"
    and all: "list_all2 Q [0..<m] ys"
    using for_each_ok [of "[0..<m]" "mating R p X" Q r] by blast
  from all have len: "length ys = m"
    by (auto dest: list_all2_lengthD)
  from all len have "\<forall>k<m. Q k (ys ! k)"
    by (auto simp: list_all2_conv_all_nth)
  with run len show ?thesis
    by (simp add: BinaryCrossover_n_matings [OF shape])
qed

subsection \<open>One mutation\<close>

lemma np_where_not_empty: "np_where (logical_not row) = [] \<longleftrightarrow> np_sum row = int (length row)"
proof -
  have "int (length (np_where (logical_not row))) = int (length row) - np_sum row"
    using np_sum_where [of "logical_not row"] by (simp add: np_sum_logical_not)
  then have "length (np_where (logical_not row)) = 0 \<longleftrightarrow> np_sum row = int (length row)"
    by presburger
  then show ?thesis
    by simp
qed

lemma np_where_empty: "np_where row = [] \<longleftrightarrow> np_sum row = 0"
  by (simp add: np_sum_where)

lemma np_where_not_set: "set (np_where (logical_not row)) = {i. i < length row \<and> \<not> row ! i}"
  by (auto simp: np_where_set logical_not_def)

lemma mutate_row_ok:
  assumes R: "np_random_ok R" and some: "0 < np_sum row" and notall: "np_sum row < int (length row)"
  shows "\<exists>j t r'. mutate_row R row r = Inr (row[j := True, t := False], r')
           \<and> j < length row \<and> t < length row \<and> \<not> row ! j \<and> row ! t"
proof -
  from notall have "np_where (logical_not row) \<noteq> []"
    by (simp add: np_where_not_empty)
  with R obtain j r1 where j: "random_choice R (np_where (logical_not row)) r = Inr (j, r1)"
    "j \<in> set (np_where (logical_not row))"
    unfolding np_random_ok_def by blast
  from some have "np_where row \<noteq> []"
    by (simp add: np_where_empty)
  with R obtain t r2 where t: "random_choice R (np_where row) r1 = Inr (t, r2)"
    "t \<in> set (np_where row)"
    unfolding np_random_ok_def by blast
  from j(2) have jr: "j < length row" "\<not> row ! j"
    by (simp_all add: np_where_not_set)
  from t(2) have tr: "t < length row" "row ! t"
    by (simp_all add: np_where_set)
  have "mutate_row R row r = Inr (row[j := True, t := False], r2)"
    unfolding mutate_row_def Let_def using jr(1) tr(1)
    by (simp add: j(1) t(1) assign_at_def)
  with jr tr show ?thesis
    by blast
qed

lemma mutate_row_count:
  assumes R: "np_random_ok R" and some: "0 < np_sum row" and notall: "np_sum row < int (length row)"
  shows "\<exists>x r'. mutate_row R row r = Inr (x, r') \<and> length x = length row \<and> np_sum x = np_sum row"
proof -
  from mutate_row_ok [OF assms, of r] obtain j t r' where
    run: "mutate_row R row r = Inr (row[j := True, t := False], r')"
    and jt: "j < length row" "t < length row" "\<not> row ! j" "row ! t"
    by blast
  from jt have "j \<noteq> t" by auto
  with jt have "np_sum (row[j := True, t := False]) = np_sum row"
    by (simp add: np_sum_update)
  with run show ?thesis
    by simp
qed

lemma mutate_row_degenerate:
  assumes R: "np_random_ok R" and deg: "np_sum row = 0 \<or> np_sum row = int (length row)"
  shows "mutate_row R row r = Inl ValueError"
proof (cases "np_sum row = int (length row)")
  case True
  then have "np_where (logical_not row) = []"
    by (simp add: np_where_not_empty)
  moreover from R have "random_choice R [] r = Inl ValueError"
    by (simp add: np_random_ok_def)
  ultimately show ?thesis
    by (simp add: mutate_row_def)
next
  case False
  with deg have zero: "np_sum row = 0" by simp
  then have empty: "np_where row = []"
    by (simp add: np_where_empty)
  from False have "np_where (logical_not row) \<noteq> []"
    by (simp add: np_where_not_empty)
  with R obtain j r1 where j: "random_choice R (np_where (logical_not row)) r = Inr (j, r1)"
    "j \<in> set (np_where (logical_not row))"
    unfolding np_random_ok_def by blast
  from j(2) have "j < length row"
    by (simp add: np_where_not_set)
  moreover from R have "random_choice R [] r1 = Inl ValueError"
    by (simp add: np_random_ok_def)
  ultimately show ?thesis
    unfolding mutate_row_def Let_def by (simp add: j(1) empty assign_at_def)
qed

lemma mutate_row_total:
  assumes R: "np_random_ok R"
  shows "(\<exists>x r'. mutate_row R row r = Inr (x, r')) \<or> mutate_row R row r = Inl ValueError"
proof (cases "0 < np_sum row \<and> np_sum row < int (length row)")
  case True
  with mutate_row_count [OF R, of row r] show ?thesis by blast
next
  case False
  then have "np_sum row = 0 \<or> np_sum row = int (length row)"
    using np_sum_nonneg [of row] np_sum_le_length [of row] by linarith
  with mutate_row_degenerate [OF R] show ?thesis by blast
qed

subsection \<open>The example generator meets the contract\<close>

lemma mset_rotate_eq: "mset (rotate n xs) = mset xs"
proof -
  have "mset (drop (n mod length xs) xs @ take (n mod length xs) xs)
        = mset (take (n mod length xs) xs @ drop (n mod length xs) xs)"
    by (simp only: mset_append add.commute)
  then show ?thesis
    by (simp only: rotate_drop_take append_take_drop_id)
qed

lemma example_random_ok: "np_random_ok example_random"
proof -
  have "mset (fst (random_permutation example_random n r)) = mset [0..<n]" for n r
  proof -
    have "mset (rotate r [0..<n]) = mset [0..<n]"
      by (rule mset_rotate_eq)
    then show ?thesis
      by (simp only: example_random_def np_random.simps fst_conv)
  qed
  moreover have "random_choice example_random [] r = Inl ValueError" for r
    by (simp add: example_random_def)
  moreover have "\<exists>v r'. random_choice example_random a r = Inr (v, r') \<and> v \<in> set a"
    if "a \<noteq> []" for a r
    using that by (simp add: example_random_def)
  ultimately show ?thesis
    unfolding np_random_ok_def by blast
qed

subsection \<open>The smallest weights\<close>








subsection \<open>The operators on whole arrays\<close>

lemma shape_row:
  assumes "has_shape X 2 m c" and "k < m"
  shows "X ! 0 ! k \<in> set (X ! 0)" and "X ! 1 ! k \<in> set (X ! 1)"
    and "X ! 0 \<in> set X" and "X ! 1 \<in> set X"
proof -
  from assms have X: "length X = 2" "length (X ! 0) = m" "length (X ! 1) = m"
    by (auto simp: has_shape_def)
  with assms(2) show "X ! 0 ! k \<in> set (X ! 0)" "X ! 1 ! k \<in> set (X ! 1)"
    "X ! 0 \<in> set X" "X ! 1 \<in> set X"
    by simp_all
qed

lemma cross_feasible:
  assumes R: "np_random_ok R" and l1: "length p1 = n_var p" and l2: "length p2 = n_var p"
    and f1: "np_sum p1 = n_max p" and f2: "np_sum p2 = n_max p"
  shows "\<exists>x r'. cross R p p1 p2 r = Inr (x, r') \<and> length x = n_var p \<and> np_sum x = n_max p"
proof -
  from cross_count [OF assms, of r] obtain S r' where
    run: "cross R p p1 p2 r = Inr (fold (\<lambda>i x. x[i := True]) S (logical_and p1 p2), r')"
    and S: "distinct S" "set S \<subseteq> {i. i < n_var p \<and> p1 ! i \<noteq> p2 ! i}"
    and len: "int (length S) = n_max p - np_sum (logical_and p1 p2)"
    by blast
  have "np_sum (fold (\<lambda>i x. x[i := True]) S (logical_and p1 p2))
        = np_sum (logical_and p1 p2) + int (length S)"
    using l1 l2 S by (rule offspring_sum)
  with len have "np_sum (fold (\<lambda>i x. x[i := True]) S (logical_and p1 p2)) = n_max p"
    by simp
  moreover have "length (fold (\<lambda>i x. x[i := True]) S (logical_and p1 p2)) = n_var p"
    using l1 l2 by (rule offspring_length)
  ultimately show ?thesis
    using run by simp
qed

lemma np_sum_and_card:
  assumes "length p1 = n" and "length p2 = n"
  shows "np_sum (logical_and p1 p2) = int (card {i. i < n \<and> p1 ! i \<and> p2 ! i})"
proof -
  have "{i. i < length (logical_and p1 p2) \<and> logical_and p1 p2 ! i} = {i. i < n \<and> p1 ! i \<and> p2 ! i}"
    using assms by (auto simp: logical_and_length logical_and_nth)
  then show ?thesis
    by (simp add: np_sum_card)
qed

lemma cross_positions:
  assumes R: "np_random_ok R" and l1: "length p1 = n_var p" and l2: "length p2 = n_var p"
    and f1: "np_sum p1 = n_max p" and f2: "np_sum p2 = n_max p"
  shows "\<exists>x r'. cross R p p1 p2 r = Inr (x, r') \<and> length x = n_var p
           \<and> (\<forall>i<n_var p. (p1 ! i \<and> p2 ! i \<longrightarrow> x ! i) \<and> (x ! i \<longrightarrow> p1 ! i \<or> p2 ! i))
           \<and> int (card {i. i < n_var p \<and> x ! i \<and> p1 ! i \<noteq> p2 ! i})
               = n_max p - int (card {i. i < n_var p \<and> p1 ! i \<and> p2 ! i})"
proof -
  from cross_count [OF assms, of r] obtain S r' where
    run: "cross R p p1 p2 r = Inr (fold (\<lambda>i x. x[i := True]) S (logical_and p1 p2), r')"
    and S: "distinct S" "set S \<subseteq> {i. i < n_var p \<and> p1 ! i \<noteq> p2 ! i}"
    and len: "int (length S) = n_max p - np_sum (logical_and p1 p2)"
    by blast
  let ?x = "fold (\<lambda>i x. x[i := True]) S (logical_and p1 p2)"
  have nth: "?x ! i = ((p1 ! i \<and> p2 ! i) \<or> i \<in> set S)" if "i < n_var p" for i
    using l1 l2 that by (rule offspring_nth)
  have lenx: "length ?x = n_var p"
    using l1 l2 by (rule offspring_length)
  have inside: "\<forall>i<n_var p. (p1 ! i \<and> p2 ! i \<longrightarrow> ?x ! i) \<and> (?x ! i \<longrightarrow> p1 ! i \<or> p2 ! i)"
  proof (intro allI impI)
    fix i
    assume i: "i < n_var p"
    show "(p1 ! i \<and> p2 ! i \<longrightarrow> ?x ! i) \<and> (?x ! i \<longrightarrow> p1 ! i \<or> p2 ! i)"
      using nth [OF i] S(2) by blast
  qed
  have "{i. i < n_var p \<and> ?x ! i \<and> p1 ! i \<noteq> p2 ! i} = set S"
  proof (rule set_eqI)
    fix i
    show "i \<in> {i. i < n_var p \<and> ?x ! i \<and> p1 ! i \<noteq> p2 ! i} \<longleftrightarrow> i \<in> set S"
    proof (cases "i < n_var p")
      case True
      from nth [OF True] S(2) True show ?thesis by blast
    next
      case False
      with S(2) show ?thesis by blast
    qed
  qed
  then have "card {i. i < n_var p \<and> ?x ! i \<and> p1 ! i \<noteq> p2 ! i} = length S"
    using S(1) by (simp only: distinct_card)
  with len have "int (card {i. i < n_var p \<and> ?x ! i \<and> p1 ! i \<noteq> p2 ! i})
                 = n_max p - int (card {i. i < n_var p \<and> p1 ! i \<and> p2 ! i})"
    by (simp only: np_sum_and_card [OF l1 l2])
  with run lenx inside show ?thesis
    by blast
qed

lemma cross_union:
  assumes R: "np_random_ok R" and l1: "length p1 = n_var p" and l2: "length p2 = n_var p"
    and few: "np_sum (logical_xor p1 p2) < n_max p - np_sum (logical_and p1 p2)"
  shows "\<exists>x r'. cross R p p1 p2 r = Inr (x, r') \<and> length x = n_var p
           \<and> (\<forall>i<n_var p. x ! i = (p1 ! i \<or> p2 ! i))
           \<and> np_sum x < n_max p"
proof -
  from cross_truncated [OF assms, of r] obtain S r' where
    run: "cross R p p1 p2 r = Inr (fold (\<lambda>i x. x[i := True]) S (logical_and p1 p2), r')"
    and S: "distinct S" "set S = {i. i < n_var p \<and> p1 ! i \<noteq> p2 ! i}"
    by blast
  let ?x = "fold (\<lambda>i x. x[i := True]) S (logical_and p1 p2)"
  have nth: "?x ! i = ((p1 ! i \<and> p2 ! i) \<or> i \<in> set S)" if "i < n_var p" for i
    using l1 l2 that by (rule offspring_nth)
  have union: "\<forall>i<n_var p. ?x ! i = (p1 ! i \<or> p2 ! i)"
  proof (intro allI impI)
    fix i
    assume i: "i < n_var p"
    show "?x ! i = (p1 ! i \<or> p2 ! i)"
      using nth [OF i] S(2) i by blast
  qed
  have lenx: "length ?x = n_var p"
    using l1 l2 by (rule offspring_length)
  have "set S \<subseteq> {i. i < n_var p \<and> p1 ! i \<noteq> p2 ! i}"
    using S(2) by simp
  with l1 l2 S(1) have sum: "np_sum ?x = np_sum (logical_and p1 p2) + int (length S)"
    by (rule offspring_sum)
  have "set S = set (np_where (logical_xor p1 p2))"
    using S(2) by (simp only: np_where_xor [OF l1 l2])
  with S(1) have "length S = length (np_where (logical_xor p1 p2))"
    by (metis distinct_card np_where_distinct)
  then have "int (length S) = np_sum (logical_xor p1 p2)"
    by (simp add: np_sum_where)
  with sum few have "np_sum ?x < n_max p"
    by linarith
  with run lenx union show ?thesis
    by blast
qed

lemma MyMutation_count:
  assumes R: "np_random_ok R"
    and rows: "\<forall>x \<in> set X. 0 < np_sum x \<and> np_sum x < int (length x)"
  shows "\<exists>X' r'. MyMutation_do R p X r = Inr (X', r')
           \<and> list_all2 (\<lambda>x y. length y = length x \<and> np_sum y = np_sum x) X X'"
proof -
  have "\<forall>x \<in> set X. \<forall>r. \<exists>y r'. mutate_row R x r = Inr (y, r')
          \<and> (length y = length x \<and> np_sum y = np_sum x)"
    using rows mutate_row_count [OF R] by blast
  then show ?thesis
    unfolding MyMutation_do_def by (rule for_each_ok)
qed

lemma MyMutation_fails:
  assumes R: "np_random_ok R"
    and row: "\<exists>x \<in> set X. np_sum x = 0 \<or> np_sum x = int (length x)"
  shows "MyMutation_do R p X r = Inl ValueError"
proof -
  have "\<forall>x \<in> set X. \<forall>r. (\<exists>y r'. mutate_row R x r = Inr (y, r')) \<or> mutate_row R x r = Inl ValueError"
    using mutate_row_total [OF R] by blast
  moreover have "\<exists>x \<in> set X. \<forall>r. mutate_row R x r = Inl ValueError"
    using row mutate_row_degenerate [OF R] by blast
  ultimately show ?thesis
    unfolding MyMutation_do_def by (rule for_each_fails)
qed

lemma BinaryCrossover_feasible:
  assumes R: "np_random_ok R" and shape: "has_shape X 2 m (n_var p)"
    and feasible: "\<forall>P \<in> set X. \<forall>x \<in> set P. np_sum x = n_max p"
    and body: "\<And>p1 p2 r. length p1 = n_var p \<Longrightarrow> length p2 = n_var p \<Longrightarrow>
                 np_sum p1 = n_max p \<Longrightarrow> np_sum p2 = n_max p \<Longrightarrow>
                 \<exists>x r'. cross R p p1 p2 r = Inr (x, r') \<and> Q p1 p2 x"
  shows "\<exists>offsprings r'. BinaryCrossover_do R p X r = Inr ([offsprings], r')
           \<and> length offsprings = m \<and> (\<forall>k<m. Q (X ! 0 ! k) (X ! 1 ! k) (offsprings ! k))"
proof -
  have "\<forall>k<m. \<forall>r. \<exists>x r'. cross R p (X ! 0 ! k) (X ! 1 ! k) r = Inr (x, r')
          \<and> Q (X ! 0 ! k) (X ! 1 ! k) x"
  proof (intro allI impI)
    fix k r
    assume k: "k < m"
    have "np_sum (X ! 0 ! k) = n_max p" "np_sum (X ! 1 ! k) = n_max p"
      using feasible shape_row [OF shape k] by blast+
    with mating_cross(2,3) [OF shape k]
    show "\<exists>x r'. cross R p (X ! 0 ! k) (X ! 1 ! k) r = Inr (x, r') \<and> Q (X ! 0 ! k) (X ! 1 ! k) x"
      by (rule body)
  qed
  with shape show ?thesis
    by (rule BinaryCrossover_each)
qed

section \<open>The claims\<close>

text \<open>
  C1 reads: \<open>F\<close> equals the sum of the weights at the selected positions, and \<open>G\<close> is
  zero only when exactly \<open>n_max\<close> positions are selected. Both are int64 results. For
  the weights \<open>[2^62, 2^62, 1]\<close>, all selected, the sum is \<open>2^63 + 1\<close> and \<open>F\<close> is
  \<open>-(2^63 - 1)\<close>. For \<open>2^32 + 1\<close> variables, none selected, and \<open>n_max = 2^32\<close>, the
  square \<open>2^64\<close> wraps to \<open>G = 0\<close> although no position is selected.
\<close>

theorem C1_wraps_counterexample:
  "length [True, True, True]
     = n_var \<lparr>L = [4611686018427387904, 4611686018427387904, 1], n_max = 2\<rparr>
   \<and> int64_array (L \<lparr>L = [4611686018427387904, 4611686018427387904, 1], n_max = 2\<rparr>)
   \<and> in_int64 (n_max \<lparr>L = [4611686018427387904, 4611686018427387904, 1], n_max = 2\<rparr>)
   \<and> evaluate \<lparr>L = [4611686018427387904, 4611686018427387904, 1], n_max = 2\<rparr>
         [True, True, True]
       = Inr \<lparr>F = - 9223372036854775807, G = 1\<rparr>
   \<and> - 9223372036854775807 \<noteq> (4611686018427387904 + 4611686018427387904 + 1 :: int)
   \<and> length (replicate (2 ^ 32 + 1) False)
       = n_var \<lparr>L = replicate (2 ^ 32 + 1) 0, n_max = 2 ^ 32\<rparr>
   \<and> int64_array (L \<lparr>L = replicate (2 ^ 32 + 1) 0, n_max = 2 ^ 32\<rparr>)
   \<and> in_int64 (n_max \<lparr>L = replicate (2 ^ 32 + 1) 0, n_max = 2 ^ 32\<rparr>)
   \<and> evaluate \<lparr>L = replicate (2 ^ 32 + 1) 0, n_max = 2 ^ 32\<rparr> (replicate (2 ^ 32 + 1) False)
       = Inr \<lparr>F = 0, G = 0\<rparr>
   \<and> np_sum (replicate (2 ^ 32 + 1) False) \<noteq> n_max \<lparr>L = replicate (2 ^ 32 + 1) 0, n_max = 2 ^ 32\<rparr>"
proof -
  let ?p = "\<lparr>L = [4611686018427387904, 4611686018427387904, 1], n_max = 2\<rparr>"
  let ?q = "\<lparr>L = replicate (2 ^ 32 + 1) 0, n_max = 2 ^ 32\<rparr>"
  let ?none = "replicate (2 ^ 32 + 1) False"
  have p: "length [True, True, True] = n_var ?p" "int64_array (L ?p)" "in_int64 (n_max ?p)"
    by (simp_all add: n_var_def int64_array_def in_int64_def)
  have run_p: "evaluate ?p [True, True, True] = Inr \<lparr>F = - 9223372036854775807, G = 1\<rparr>"
    by code_simp
  have q: "length ?none = n_var ?q" "int64_array (L ?q)" "in_int64 (n_max ?q)"
    by (simp_all add: n_var_def int64_array_def in_int64_def list_all_length)
  have none: "np_sum ?none = 0"
    by (rule np_sum_replicate_False)
  then have "np_where ?none = []"
    by (simp only: np_where_empty)
  with evaluate_ok [OF q(1)] none
  have run_q: "evaluate ?q ?none = Inr \<lparr>F = 0, G = 0\<rparr>"
    by (simp add: wrap_int64_def)
  from none have "np_sum ?none \<noteq> n_max ?q"
    by simp
  with p run_p q run_q show ?thesis
    by simp
qed

text \<open>
  C1, amended. For every boolean candidate \<open>x\<close> of length \<open>n_var\<close> (\<open>L\<close> an int64 array,
  \<open>n_max\<close> within the int64 range), \<^verbatim>\<open>_evaluate\<close> returns without raising; \<open>F\<close> is the
  sum of the weights at the selected positions reduced to int64, hence equal to that
  sum whenever the sum lies within \<open>[-2^63, 2^63)\<close>; \<open>G\<close> is \<open>n_max\<close> minus the number of
  selected positions, squared and reduced to int64, hence equal to that square
  whenever it is below \<open>2^63\<close>, and then \<open>G\<close> is zero exactly when \<open>n_max\<close> positions are
  selected.
\<close>

theorem C1_evaluate:
  assumes len: "length x = n_var p" and "int64_array (L p)" and "in_int64 (n_max p)"
  shows "\<exists>r. evaluate p x = Inr r
           \<and> F r = wrap_int64 (\<Sum>i \<in> {i. i < n_var p \<and> x ! i}. L p ! i)
           \<and> G r = wrap_int64 ((n_max p - int (card {i. i < n_var p \<and> x ! i})) ^ 2)
           \<and> (in_int64 (\<Sum>i \<in> {i. i < n_var p \<and> x ! i}. L p ! i) \<longrightarrow>
                F r = (\<Sum>i \<in> {i. i < n_var p \<and> x ! i}. L p ! i))
           \<and> (in_int64 ((n_max p - int (card {i. i < n_var p \<and> x ! i})) ^ 2) \<longrightarrow>
                G r = (n_max p - int (card {i. i < n_var p \<and> x ! i})) ^ 2
                \<and> (G r = 0 \<longleftrightarrow> int (card {i. i < n_var p \<and> x ! i}) = n_max p))"
proof -
  let ?S = "{i. i < n_var p \<and> x ! i}"
  have "sum_list (map (\<lambda>i. L p ! i) (np_where x)) = (\<Sum>i \<in> set (np_where x). L p ! i)"
    by (rule sum_list_distinct_conv_sum_set) (rule np_where_distinct)
  with len have sum: "sum_list (map (\<lambda>i. L p ! i) (np_where x)) = (\<Sum>i \<in> ?S. L p ! i)"
    by (simp add: np_where_set)
  from len have count: "np_sum x = int (card ?S)"
    by (simp add: np_sum_card)
  have run: "evaluate p x = Inr \<lparr>F = wrap_int64 (\<Sum>i \<in> ?S. L p ! i),
                                   G = wrap_int64 ((n_max p - int (card ?S)) ^ 2)\<rparr>"
    using evaluate_ok [OF len] by (simp only: sum count)
  have "wrap_int64 (\<Sum>i \<in> ?S. L p ! i) = (\<Sum>i \<in> ?S. L p ! i)"
    if "in_int64 (\<Sum>i \<in> ?S. L p ! i)"
    using that by (rule wrap_int64_id)
  moreover have "wrap_int64 ((n_max p - int (card ?S)) ^ 2) = (n_max p - int (card ?S)) ^ 2
                 \<and> (wrap_int64 ((n_max p - int (card ?S)) ^ 2) = 0 \<longleftrightarrow> int (card ?S) = n_max p)"
    if "in_int64 ((n_max p - int (card ?S)) ^ 2)"
    using that by (auto simp: wrap_int64_id)
  ultimately show ?thesis
    using run by auto
qed

theorem C1_evaluate_witness:
  "length [True, False, True] = n_var \<lparr>L = [5, 7, 11], n_max = 2\<rparr>
   \<and> int64_array (L \<lparr>L = [5, 7, 11], n_max = 2\<rparr>)
   \<and> in_int64 (n_max \<lparr>L = [5, 7, 11], n_max = 2\<rparr>)
   \<and> evaluate \<lparr>L = [5, 7, 11], n_max = 2\<rparr> [True, False, True] = Inr \<lparr>F = 16, G = 0\<rparr>
   \<and> (\<exists>r. evaluate \<lparr>L = [5, 7, 11], n_max = 2\<rparr> [True, False, True] = Inr r
          \<and> F r = wrap_int64 (\<Sum>i \<in> {i. i < n_var \<lparr>L = [5, 7, 11], n_max = 2\<rparr>
                                          \<and> [True, False, True] ! i}. L \<lparr>L = [5, 7, 11], n_max = 2\<rparr> ! i)
          \<and> G r = wrap_int64 ((n_max \<lparr>L = [5, 7, 11], n_max = 2\<rparr>
                     - int (card {i. i < n_var \<lparr>L = [5, 7, 11], n_max = 2\<rparr>
                                    \<and> [True, False, True] ! i})) ^ 2))"
proof -
  let ?p = "\<lparr>L = [5, 7, 11], n_max = 2\<rparr>"
  have len: "length [True, False, True] = n_var ?p"
    by (simp add: n_var_def)
  have arr: "int64_array (L ?p)"
    by (simp add: int64_array_def in_int64_def)
  have target: "in_int64 (n_max ?p)"
    by (simp add: in_int64_def)
  have run: "evaluate ?p [True, False, True] = Inr \<lparr>F = 16, G = 0\<rparr>"
    by code_simp
  from C1_evaluate [OF len arr target] len arr target run show ?thesis
    by blast
qed

text \<open>
  C2. For a target count within the number of variables
  (\<open>0 \<le> n_max \<le> n_var\<close>), \<^verbatim>\<open>MySampling._do\<close> returns \<open>n_samples\<close> candidates of
  length \<open>n_var\<close> with exactly \<open>n_max\<close> selected positions each. For parents that all
  have exactly \<open>n_max\<close> selected positions, \<^verbatim>\<open>BinaryCrossover._do\<close> returns one
  offspring per mating, each with exactly \<open>n_max\<close> selected positions. For candidates
  that each have a selected and an unselected position, \<^verbatim>\<open>MyMutation._do\<close>
  returns candidates with the same number of selected positions as its inputs, row
  by row. None of the three raises.
\<close>

theorem C2_count_preserved:
  assumes R: "np_random_ok R"
  shows "(0 \<le> n_max p \<and> n_max p \<le> int (n_var p) \<longrightarrow>
            (\<exists>X' r'. MySampling_do R p n r = Inr (X', r') \<and> length X' = n
                \<and> (\<forall>x \<in> set X'. length x = n_var p \<and> np_sum x = n_max p)))
       \<and> (has_shape X 2 m (n_var p) \<and> (\<forall>P \<in> set X. \<forall>x \<in> set P. np_sum x = n_max p) \<longrightarrow>
            (\<exists>offsprings r'. BinaryCrossover_do R p X r = Inr ([offsprings], r')
                \<and> length offsprings = m
                \<and> (\<forall>k<m. length (offsprings ! k) = n_var p \<and> np_sum (offsprings ! k) = n_max p)))
       \<and> ((\<forall>x \<in> set Y. 0 < np_sum x \<and> np_sum x < int (length x)) \<longrightarrow>
            (\<exists>Y' r'. MyMutation_do R p Y r = Inr (Y', r')
                \<and> list_all2 (\<lambda>x y. length y = length x \<and> np_sum y = np_sum x) Y Y'))"
proof (intro conjI impI)
  assume "0 \<le> n_max p \<and> n_max p \<le> int (n_var p)"
  then show "\<exists>X' r'. MySampling_do R p n r = Inr (X', r') \<and> length X' = n
                \<and> (\<forall>x \<in> set X'. length x = n_var p \<and> np_sum x = n_max p)"
    using MySampling_count [OF R, of p n r] by simp
next
  assume parents: "has_shape X 2 m (n_var p) \<and> (\<forall>P \<in> set X. \<forall>x \<in> set P. np_sum x = n_max p)"
  let ?Q = "\<lambda>(p1::bool list) (p2::bool list) x. length x = n_var p \<and> np_sum x = n_max p"
  from parents have shape: "has_shape X 2 m (n_var p)"
    and feasible: "\<forall>P \<in> set X. \<forall>x \<in> set P. np_sum x = n_max p"
    by simp_all
  show "\<exists>offsprings r'. BinaryCrossover_do R p X r = Inr ([offsprings], r')
          \<and> length offsprings = m
          \<and> (\<forall>k<m. length (offsprings ! k) = n_var p \<and> np_sum (offsprings ! k) = n_max p)"
    using BinaryCrossover_feasible [OF R shape feasible, of ?Q r] cross_feasible [OF R]
    by simp
next
  assume "\<forall>x \<in> set Y. 0 < np_sum x \<and> np_sum x < int (length x)"
  with R show "\<exists>Y' r'. MyMutation_do R p Y r = Inr (Y', r')
                 \<and> list_all2 (\<lambda>x y. length y = length x \<and> np_sum y = np_sum x) Y Y'"
    by (rule MyMutation_count)
qed

text \<open>The three operators on a problem with four weights and \<open>n_max = 2\<close>.\<close>

theorem C2_count_preserved_witness:
  "(\<exists>X' r'. MySampling_do example_random \<lparr>L = [3, 1, 2, 5], n_max = 2\<rparr> 2 0 = Inr (X', r')
       \<and> length X' = 2
       \<and> (\<forall>x \<in> set X'. length x = n_var \<lparr>L = [3, 1, 2, 5], n_max = 2\<rparr>
              \<and> np_sum x = n_max \<lparr>L = [3, 1, 2, 5], n_max = 2\<rparr>))
   \<and> (\<exists>offsprings r'. BinaryCrossover_do example_random \<lparr>L = [3, 1, 2, 5], n_max = 2\<rparr>
          [[[True, True, False, False]], [[False, True, True, False]]] 0 = Inr ([offsprings], r')
       \<and> length offsprings = 1
       \<and> (\<forall>k<1. length (offsprings ! k) = n_var \<lparr>L = [3, 1, 2, 5], n_max = 2\<rparr>
              \<and> np_sum (offsprings ! k) = n_max \<lparr>L = [3, 1, 2, 5], n_max = 2\<rparr>))
   \<and> (\<exists>Y' r'. MyMutation_do example_random \<lparr>L = [3, 1, 2, 5], n_max = 2\<rparr>
          [[True, False, True, False]] 0 = Inr (Y', r')
       \<and> list_all2 (\<lambda>x y. length y = length x \<and> np_sum y = np_sum x)
            [[True, False, True, False]] Y')"
proof -
  let ?p = "\<lparr>L = [3, 1, 2, 5], n_max = 2\<rparr>"
  let ?X = "[[[True, True, False, False]], [[False, True, True, False]]]"
  let ?Y = "[[True, False, True, False]]"
  have target: "0 \<le> n_max ?p \<and> n_max ?p \<le> int (n_var ?p)"
    by (simp add: n_var_def)
  have parents: "has_shape ?X 2 1 (n_var ?p) \<and> (\<forall>P \<in> set ?X. \<forall>x \<in> set P. np_sum x = n_max ?p)"
    by (simp add: has_shape_def n_var_def np_sum_def)
  have mixed: "\<forall>x \<in> set ?Y. 0 < np_sum x \<and> np_sum x < int (length x)"
    by (simp add: np_sum_def)
  from C2_count_preserved [OF example_random_ok, of ?p 2 0 ?X 1 ?Y] target parents mixed
  show ?thesis
    by blast
qed

text \<open>
  C3 reads: when the symmetric difference of the parents has fewer positions than are
  still needed, \<^verbatim>\<open>BinaryCrossover\<close> fails with an error. The code has no such check,
  and the slice \<^verbatim>\<open>[:n_remaining]\<close> does not raise: for the parents
  \<open>[True, False, False]\<close> and \<open>[False, True, False]\<close> and \<open>n_max = 3\<close> the symmetric
  difference has two positions, three are needed, and the call returns the offspring
  \<open>[True, True, False]\<close>.
\<close>

theorem C3_no_error_counterexample:
  "np_random_ok example_random
   \<and> has_shape [[[True, False, False]], [[False, True, False]]] 2 1 (n_var \<lparr>L = [4, 6, 8], n_max = 3\<rparr>)
   \<and> np_sum (logical_xor [True, False, False] [False, True, False])
       < n_max \<lparr>L = [4, 6, 8], n_max = 3\<rparr> - np_sum (logical_and [True, False, False] [False, True, False])
   \<and> BinaryCrossover_do example_random \<lparr>L = [4, 6, 8], n_max = 3\<rparr>
         [[[True, False, False]], [[False, True, False]]] 0
       = Inr ([[[True, True, False]]], 1)
   \<and> np_sum [True, True, False] < n_max \<lparr>L = [4, 6, 8], n_max = 3\<rparr>"
proof -
  have "BinaryCrossover_do example_random \<lparr>L = [4, 6, 8], n_max = 3\<rparr>
          [[[True, False, False]], [[False, True, False]]] 0
        = Inr ([[[True, True, False]]], 1)"
    by code_simp
  moreover have "has_shape [[[True, False, False]], [[False, True, False]]] 2 1
                   (n_var \<lparr>L = [4, 6, 8], n_max = 3\<rparr>)"
    by (simp add: has_shape_def n_var_def)
  moreover have "np_sum (logical_xor [True, False, False] [False, True, False])
                 < n_max \<lparr>L = [4, 6, 8], n_max = 3\<rparr>
                   - np_sum (logical_and [True, False, False] [False, True, False])"
    by (simp add: np_sum_def logical_xor_def logical_and_def)
  moreover have "np_sum [True, True, False] < n_max \<lparr>L = [4, 6, 8], n_max = 3\<rparr>"
    by (simp add: np_sum_def)
  ultimately show ?thesis
    using example_random_ok by simp
qed

text \<open>
  C3, amended. When the symmetric difference of the parents of mating \<open>k\<close> has fewer
  positions than \<open>n_max\<close> minus the size of their intersection,
  \<^verbatim>\<open>BinaryCrossover._do\<close> raises nothing: the slice is the whole symmetric
  difference, offspring \<open>k\<close> selects exactly the positions that at least one parent
  selects, and these are fewer than \<open>n_max\<close>.
\<close>

theorem C3_crossover_truncates:
  assumes R: "np_random_ok R" and shape: "has_shape X 2 m (n_var p)" and k: "k < m"
    and few: "np_sum (logical_xor (X ! 0 ! k) (X ! 1 ! k))
              < n_max p - np_sum (logical_and (X ! 0 ! k) (X ! 1 ! k))"
  shows "\<exists>offsprings r'. BinaryCrossover_do R p X r = Inr ([offsprings], r')
           \<and> length offsprings = m
           \<and> length (offsprings ! k) = n_var p
           \<and> (\<forall>i<n_var p. offsprings ! k ! i = (X ! 0 ! k ! i \<or> X ! 1 ! k ! i))
           \<and> np_sum (offsprings ! k) < n_max p"
proof -
  let ?Q = "\<lambda>j x. j = k \<longrightarrow> length x = n_var p
              \<and> (\<forall>i<n_var p. x ! i = (X ! 0 ! k ! i \<or> X ! 1 ! k ! i)) \<and> np_sum x < n_max p"
  have "\<forall>j<m. \<forall>r. \<exists>x r'. cross R p (X ! 0 ! j) (X ! 1 ! j) r = Inr (x, r') \<and> ?Q j x"
  proof (intro allI impI)
    fix j r
    assume j: "j < m"
    show "\<exists>x r'. cross R p (X ! 0 ! j) (X ! 1 ! j) r = Inr (x, r') \<and> ?Q j x"
    proof (cases "j = k")
      case True
      with cross_union [OF R mating_cross(2,3) [OF shape k] few, of r] show ?thesis
        by blast
    next
      case False
      with cross_ok [OF R mating_cross(2,3) [OF shape j], of r] show ?thesis
        by blast
    qed
  qed
  with shape obtain offsprings r' where
    "BinaryCrossover_do R p X r = Inr ([offsprings], r')" "length offsprings = m"
    "\<forall>j<m. ?Q j (offsprings ! j)"
    using BinaryCrossover_each [of X m "n_var p" R p ?Q r] by blast
  with k show ?thesis
    by blast
qed

text \<open>The same parents as above.\<close>

theorem C3_crossover_truncates_witness:
  "\<exists>offsprings r'. BinaryCrossover_do example_random \<lparr>L = [4, 6, 8], n_max = 3\<rparr>
        [[[True, False, False]], [[False, True, False]]] 0 = Inr ([offsprings], r')
     \<and> length offsprings = 1
     \<and> length (offsprings ! 0) = n_var \<lparr>L = [4, 6, 8], n_max = 3\<rparr>
     \<and> (\<forall>i<n_var \<lparr>L = [4, 6, 8], n_max = 3\<rparr>.
           offsprings ! 0 ! i
           = ([[[True, False, False]], [[False, True, False]]] ! 0 ! 0 ! i
              \<or> [[[True, False, False]], [[False, True, False]]] ! 1 ! 0 ! i))
     \<and> np_sum (offsprings ! 0) < n_max \<lparr>L = [4, 6, 8], n_max = 3\<rparr>"
proof -
  let ?p = "\<lparr>L = [4, 6, 8], n_max = 3\<rparr>"
  let ?X = "[[[True, False, False]], [[False, True, False]]]"
  have shape: "has_shape ?X 2 1 (n_var ?p)"
    by (simp add: has_shape_def n_var_def)
  have k: "(0::nat) < 1"
    by simp
  have few: "np_sum (logical_xor (?X ! 0 ! 0) (?X ! 1 ! 0))
             < n_max ?p - np_sum (logical_and (?X ! 0 ! 0) (?X ! 1 ! 0))"
    by (simp add: np_sum_def logical_xor_def logical_and_def)
  show ?thesis
    by (rule C3_crossover_truncates [OF example_random_ok shape k few])
qed

text \<open>
  C4. \<^verbatim>\<open>MyMutation._do\<close> fails on a candidate with no selected or no unselected
  position, and on no other: when some row of \<open>X\<close> is such a candidate the call
  raises, and when every row has a selected and an unselected position it returns. The
  notebook defines no exception class of its own: the exception is the ValueError
  that \<^verbatim>\<open>np.random.choice\<close> raises on the empty index array.
\<close>

theorem C4_mutation_degenerate:
  assumes R: "np_random_ok R"
  shows "((\<exists>x \<in> set X. np_sum x = 0 \<or> np_sum x = int (length x)) \<longrightarrow>
            MyMutation_do R p X r = Inl ValueError)
       \<and> ((\<forall>x \<in> set X. 0 < np_sum x \<and> np_sum x < int (length x)) \<longrightarrow>
            (\<exists>X' r'. MyMutation_do R p X r = Inr (X', r')))"
proof (intro conjI impI)
  assume "\<exists>x \<in> set X. np_sum x = 0 \<or> np_sum x = int (length x)"
  with R show "MyMutation_do R p X r = Inl ValueError"
    by (rule MyMutation_fails)
next
  assume "\<forall>x \<in> set X. 0 < np_sum x \<and> np_sum x < int (length x)"
  with MyMutation_count [OF R, of X p r] show "\<exists>X' r'. MyMutation_do R p X r = Inr (X', r')"
    by blast
qed

text \<open>
  A row with no selected position, a row with no unselected position, and two rows
  that have both.
\<close>

theorem C4_mutation_degenerate_witness:
  "MyMutation_do example_random \<lparr>L = [3, 1, 2], n_max = 2\<rparr>
     [[True, False, True], [False, False, False]] 0 = Inl ValueError
   \<and> MyMutation_do example_random \<lparr>L = [3, 1, 2], n_max = 2\<rparr>
     [[True, True, True]] 0 = Inl ValueError
   \<and> (\<exists>X' r'. MyMutation_do example_random \<lparr>L = [3, 1, 2], n_max = 2\<rparr>
         [[True, False, True], [False, True, True]] 0 = Inr (X', r'))"
proof -
  let ?p = "\<lparr>L = [3, 1, 2], n_max = 2\<rparr>"
  have none: "\<exists>x \<in> set [[True, False, True], [False, False, False]].
                np_sum x = 0 \<or> np_sum x = int (length x)"
    by (simp add: np_sum_def)
  have full: "\<exists>x \<in> set [[True, True, True]]. np_sum x = 0 \<or> np_sum x = int (length x)"
    by (simp add: np_sum_def)
  have mixed: "\<forall>x \<in> set [[True, False, True], [False, True, True]].
                 0 < np_sum x \<and> np_sum x < int (length x)"
    by (simp add: np_sum_def)
  from C4_mutation_degenerate [OF example_random_ok, of "[[True, False, True], [False, False, False]]" ?p 0]
    C4_mutation_degenerate [OF example_random_ok, of "[[True, True, True]]" ?p 0]
    C4_mutation_degenerate [OF example_random_ok, of "[[True, False, True], [False, True, True]]" ?p 0]
    none full mixed
  show ?thesis
    by blast
qed

text \<open>
  C5. For parents that all have exactly \<open>n_max\<close> selected positions,
  \<^verbatim>\<open>BinaryCrossover._do\<close> returns, for every mating \<open>k\<close>, an offspring that selects
  every position selected by both parents, selects no position that neither parent
  selects, and selects from the symmetric difference (positions selected by exactly one
  parent) exactly \<open>n_max\<close> minus the size of the intersection.
\<close>

theorem C5_offspring_positions:
  assumes R: "np_random_ok R" and shape: "has_shape X 2 m (n_var p)"
    and feasible: "\<forall>P \<in> set X. \<forall>x \<in> set P. np_sum x = n_max p"
  shows "\<exists>offsprings r'. BinaryCrossover_do R p X r = Inr ([offsprings], r')
           \<and> length offsprings = m
           \<and> (\<forall>k<m. length (offsprings ! k) = n_var p
                 \<and> (\<forall>i<n_var p. (X ! 0 ! k ! i \<and> X ! 1 ! k ! i \<longrightarrow> offsprings ! k ! i)
                         \<and> (offsprings ! k ! i \<longrightarrow> X ! 0 ! k ! i \<or> X ! 1 ! k ! i))
                 \<and> int (card {i. i < n_var p \<and> offsprings ! k ! i \<and> X ! 0 ! k ! i \<noteq> X ! 1 ! k ! i})
                     = n_max p - int (card {i. i < n_var p \<and> X ! 0 ! k ! i \<and> X ! 1 ! k ! i}))"
proof -
  let ?Q = "\<lambda>p1 p2 x. length x = n_var p
              \<and> (\<forall>i<n_var p. (p1 ! i \<and> p2 ! i \<longrightarrow> x ! i) \<and> (x ! i \<longrightarrow> p1 ! i \<or> p2 ! i))
              \<and> int (card {i. i < n_var p \<and> x ! i \<and> p1 ! i \<noteq> p2 ! i})
                  = n_max p - int (card {i. i < n_var p \<and> p1 ! i \<and> p2 ! i})"
  show ?thesis
    using BinaryCrossover_feasible [OF R shape feasible, of ?Q r] cross_positions [OF R]
    by simp
qed

text \<open>
  Parents \<open>[True, True, False, False]\<close> and \<open>[False, True, True, False]\<close>: position 1 is
  kept, position 3 stays unselected, and one of the positions 0 and 2 is added.
\<close>

theorem C5_offspring_positions_witness:
  "\<exists>offsprings r'. BinaryCrossover_do example_random \<lparr>L = [3, 1, 2, 5], n_max = 2\<rparr>
        [[[True, True, False, False]], [[False, True, True, False]]] 0 = Inr ([offsprings], r')
     \<and> length offsprings = 1
     \<and> offsprings ! 0 ! 1
     \<and> \<not> offsprings ! 0 ! 3
     \<and> int (card {i. i < n_var \<lparr>L = [3, 1, 2, 5], n_max = 2\<rparr> \<and> offsprings ! 0 ! i
                     \<and> [[[True, True, False, False]], [[False, True, True, False]]] ! 0 ! 0 ! i
                         \<noteq> [[[True, True, False, False]], [[False, True, True, False]]] ! 1 ! 0 ! i})
         = n_max \<lparr>L = [3, 1, 2, 5], n_max = 2\<rparr>
           - int (card {i. i < n_var \<lparr>L = [3, 1, 2, 5], n_max = 2\<rparr>
                     \<and> [[[True, True, False, False]], [[False, True, True, False]]] ! 0 ! 0 ! i
                     \<and> [[[True, True, False, False]], [[False, True, True, False]]] ! 1 ! 0 ! i})"
proof -
  let ?p = "\<lparr>L = [3, 1, 2, 5], n_max = 2\<rparr>"
  let ?X = "[[[True, True, False, False]], [[False, True, True, False]]]"
  have shape: "has_shape ?X 2 1 (n_var ?p)"
    by (simp add: has_shape_def n_var_def)
  have feasible: "\<forall>P \<in> set ?X. \<forall>x \<in> set P. np_sum x = n_max ?p"
    by (simp add: np_sum_def)
  have nv: "1 < n_var ?p" "3 < n_var ?p"
    by (simp_all add: n_var_def)
  have both: "?X ! 0 ! 0 ! 1 \<and> ?X ! 1 ! 0 ! 1" and neither: "\<not> (?X ! 0 ! 0 ! 3 \<or> ?X ! 1 ! 0 ! 3)"
    by simp_all
  from C5_offspring_positions [OF example_random_ok shape feasible, of 0]
  obtain offsprings r' where
    run: "BinaryCrossover_do example_random ?p ?X 0 = Inr ([offsprings], r')"
      "length offsprings = 1"
    and each: "\<forall>k<1. length (offsprings ! k) = n_var ?p
                 \<and> (\<forall>i<n_var ?p. (?X ! 0 ! k ! i \<and> ?X ! 1 ! k ! i \<longrightarrow> offsprings ! k ! i)
                         \<and> (offsprings ! k ! i \<longrightarrow> ?X ! 0 ! k ! i \<or> ?X ! 1 ! k ! i))
                 \<and> int (card {i. i < n_var ?p \<and> offsprings ! k ! i \<and> ?X ! 0 ! k ! i \<noteq> ?X ! 1 ! k ! i})
                     = n_max ?p - int (card {i. i < n_var ?p \<and> ?X ! 0 ! k ! i \<and> ?X ! 1 ! k ! i})"
    by blast
  from each have first: "(\<forall>i<n_var ?p. (?X ! 0 ! 0 ! i \<and> ?X ! 1 ! 0 ! i \<longrightarrow> offsprings ! 0 ! i)
                         \<and> (offsprings ! 0 ! i \<longrightarrow> ?X ! 0 ! 0 ! i \<or> ?X ! 1 ! 0 ! i))"
    and count: "int (card {i. i < n_var ?p \<and> offsprings ! 0 ! i \<and> ?X ! 0 ! 0 ! i \<noteq> ?X ! 1 ! 0 ! i})
                = n_max ?p - int (card {i. i < n_var ?p \<and> ?X ! 0 ! 0 ! i \<and> ?X ! 1 ! 0 ! i})"
    by simp_all
  from first nv(1) both have "offsprings ! 0 ! 1"
    by blast
  moreover from first nv(2) neither have "\<not> offsprings ! 0 ! 3"
    by blast
  ultimately show ?thesis
    using run count by blast
qed

text \<open>
  C6. For a target count \<open>n_max\<close> that is at most \<open>n_var\<close> (a count is not negative:
  \<open>0 \<le> n_max\<close>), every candidate that \<^verbatim>\<open>MySampling._do\<close> returns evaluates, under
  \<^verbatim>\<open>SubsetProblem._evaluate\<close>, to the constraint value \<open>G = 0\<close>.
\<close>

theorem C6_sampling_feasible:
  assumes R: "np_random_ok R" and lo: "0 \<le> n_max p" and hi: "n_max p \<le> int (n_var p)"
  shows "\<exists>X r'. MySampling_do R p n r = Inr (X, r') \<and> length X = n
           \<and> (\<forall>x \<in> set X. \<exists>res. evaluate p x = Inr res \<and> G res = 0)"
proof -
  from MySampling_count [OF assms, of n r] obtain X r' where
    run: "MySampling_do R p n r = Inr (X, r')" "length X = n"
    and rows: "\<forall>x \<in> set X. length x = n_var p \<and> np_sum x = n_max p"
    by blast
  have "\<forall>x \<in> set X. \<exists>res. evaluate p x = Inr res \<and> G res = 0"
  proof
    fix x
    assume "x \<in> set X"
    with rows have "length x = n_var p" "np_sum x = n_max p"
      by simp_all
    then show "\<exists>res. evaluate p x = Inr res \<and> G res = 0"
      by (simp add: evaluate_ok wrap_int64_zero)
  qed
  with run show ?thesis
    by blast
qed

text \<open>Three samples for four weights and \<open>n_max = 2\<close>.\<close>

theorem C6_sampling_feasible_witness:
  "0 \<le> n_max \<lparr>L = [3, 1, 2, 5], n_max = 2\<rparr>
   \<and> n_max \<lparr>L = [3, 1, 2, 5], n_max = 2\<rparr> \<le> int (n_var \<lparr>L = [3, 1, 2, 5], n_max = 2\<rparr>)
   \<and> (\<exists>X r'. MySampling_do example_random \<lparr>L = [3, 1, 2, 5], n_max = 2\<rparr> 3 0 = Inr (X, r')
         \<and> length X = 3
         \<and> (\<forall>x \<in> set X. \<exists>res. evaluate \<lparr>L = [3, 1, 2, 5], n_max = 2\<rparr> x = Inr res \<and> G res = 0))"
proof -
  let ?p = "\<lparr>L = [3, 1, 2, 5], n_max = 2\<rparr>"
  have lo: "0 \<le> n_max ?p" and hi: "n_max ?p \<le> int (n_var ?p)"
    by (simp_all add: n_var_def)
  from C6_sampling_feasible [OF example_random_ok lo hi, of 3 0] lo hi show ?thesis
    by blast
qed




text \<open>
  C10. Crossing every candidate of \<open>P\<close> with itself returns \<open>P\<close>: the symmetric
  difference is empty, so nothing is added to the intersection, whatever \<open>n_max\<close> is
  and however many positions the candidates select.
\<close>

theorem C10_crossover_self:
  assumes R: "np_random_ok R" and rows: "\<forall>x \<in> set P. length x = n_var p"
  shows "\<exists>r'. BinaryCrossover_do R p [P, P] r = Inr ([P], r')"
proof -
  have shape: "has_shape [P, P] 2 (length P) (n_var p)"
    using rows by (simp add: has_shape_def)
  have "\<forall>k<length P. \<forall>r. \<exists>x r'. cross R p ([P, P] ! 0 ! k) ([P, P] ! 1 ! k) r = Inr (x, r')
          \<and> x = P ! k"
  proof (intro allI impI)
    fix k r
    assume "k < length P"
    with rows have "length (P ! k) = n_var p"
      by simp
    with cross_self [OF R, of "P ! k" p r]
    show "\<exists>x r'. cross R p ([P, P] ! 0 ! k) ([P, P] ! 1 ! k) r = Inr (x, r') \<and> x = P ! k"
      by simp
  qed
  with shape obtain offsprings r' where
    run: "BinaryCrossover_do R p [P, P] r = Inr ([offsprings], r')"
    and same: "length offsprings = length P" "\<forall>k<length P. offsprings ! k = P ! k"
    using BinaryCrossover_each [of "[P, P]" "length P" "n_var p" R p "\<lambda>k x. x = P ! k" r]
    by blast
  from same have "offsprings = P"
    by (simp add: nth_equalityI)
  with run show ?thesis
    by simp
qed

text \<open>A candidate with three selected positions and one with none, for \<open>n_max = 2\<close>.\<close>

theorem C10_crossover_self_witness:
  "\<exists>r'. BinaryCrossover_do example_random \<lparr>L = [3, 1, 2, 5], n_max = 2\<rparr>
           [[[True, True, True, False], [False, False, False, False]],
            [[True, True, True, False], [False, False, False, False]]] 0
         = Inr ([[[True, True, True, False], [False, False, False, False]]], r')"
proof -
  let ?p = "\<lparr>L = [3, 1, 2, 5], n_max = 2\<rparr>"
  have rows: "\<forall>x \<in> set [[True, True, True, False], [False, False, False, False]].
                length x = n_var ?p"
    by (simp add: n_var_def)
  show ?thesis
    by (rule C10_crossover_self [OF example_random_ok rows])
qed

end
